theory Spec2Isabelle
  imports Complex_Main "HOL-Library.Multiset"
begin

section \<open>The anteater's tongue: state and per-frame update (game.py, class Anteater)\<close>

text \<open>
  Grid cells and pixel points are pairs of Python integers. The tongue is a deque of
  cells with the head at index 0; it is modelled as a list, head first.
  The fields \<open>rect\<close> and \<open>trapped_ants\<close> of the class are not part of the record:
  \<open>rect\<close> is only read in the constructor and in \<open>reset_tongue\<close> (its
  \<open>centerx\<close> and \<open>bottom\<close> are the constants below), and \<open>trapped_ants\<close>
  is never read by the methods modelled here.
\<close>

type_synonym cell = "int \<times> int"
type_synonym point = "int \<times> int"
type_synonym edge = "point \<times> point"

datatype py_error = IndexError | ZeroDivisionError

definition WIDTH :: int where "WIDTH = 800"
definition HEIGHT :: int where "HEIGHT = 600"

text \<open>\<open>pygame.Rect(WIDTH // 2 - 25, 50, 50, 50)\<close>: centerx is left + width // 2,
  bottom is top + height.\<close>

definition rect_centerx :: int where "rect_centerx = (WIDTH div 2 - 25) + 50 div 2"
definition rect_bottom :: int where "rect_bottom = 50 + 50"

record anteater =
  grid_size :: int
  tongue :: "cell list"
  direction :: "int \<times> int"
  next_direction :: "int \<times> int"
  extending :: bool
  retracting :: bool
  move_cooldown :: int
  move_timer :: int
  max_segments :: int
  min_loop_area :: int
  loop_active :: bool
  loop_cells :: "cell set"
  capture_timer :: int
  capture_delay_frames :: int
  loop_path :: "cell list"

text \<open>\<open>Anteater.__init__\<close>; \<open>//\<close> by zero raises.\<close>

definition Anteater_init :: "int \<Rightarrow> py_error + anteater" where
  "Anteater_init g =
     (if g = 0 then Inl ZeroDivisionError
      else Inr \<lparr> grid_size = g,
                 tongue = [(rect_centerx div g, rect_bottom div g)],
                 direction = (0, 1),
                 next_direction = (0, 1),
                 extending = False,
                 retracting = False,
                 move_cooldown = 5,
                 move_timer = 0,
                 max_segments = 40,
                 min_loop_area = 2,
                 loop_active = False,
                 loop_cells = {},
                 capture_timer = 0,
                 capture_delay_frames = 60,
                 loop_path = [] \<rparr>)"

text \<open>\<open>Anteater.reset_tongue\<close>.\<close>

definition reset_tongue :: "anteater \<Rightarrow> py_error + anteater" where
  "reset_tongue s =
     (if grid_size s = 0 then Inl ZeroDivisionError
      else Inr (s\<lparr> tongue := [(rect_centerx div grid_size s, rect_bottom div grid_size s)],
                    direction := (0, 1),
                    next_direction := (0, 1),
                    move_timer := 0,
                    loop_active := False,
                    loop_cells := {},
                    loop_path := [],
                    capture_timer := 0 \<rparr>))"

text \<open>The four arrow keys of \<open>pygame.key.get_pressed()\<close> that \<open>handle_input\<close> reads.\<close>

record keys =
  K_LEFT :: bool
  K_RIGHT :: bool
  K_UP :: bool
  K_DOWN :: bool

definition handle_input :: "anteater \<Rightarrow> keys \<Rightarrow> anteater" where
  "handle_input s k =
     (if K_LEFT k then
        (if direction s \<noteq> (1, 0) then s\<lparr>next_direction := (-1, 0)\<rparr> else s)
      else if K_RIGHT k then
        (if direction s \<noteq> (-1, 0) then s\<lparr>next_direction := (1, 0)\<rparr> else s)
      else if K_UP k then
        (if direction s \<noteq> (0, 1) then s\<lparr>next_direction := (0, -1)\<rparr> else s)
      else if K_DOWN k then
        (if direction s \<noteq> (0, -1) then s\<lparr>next_direction := (0, 1)\<rparr> else s)
      else s)"

text \<open>\<open>list.index\<close>: the first position of the value, \<open>None\<close> for ValueError.\<close>

fun index_of :: "'a \<Rightarrow> 'a list \<Rightarrow> nat option" where
  "index_of v [] = None"
| "index_of v (x # xs) =
     (if x = v then Some 0
      else (case index_of v xs of None \<Rightarrow> None | Some i \<Rightarrow> Some (Suc i)))"

text \<open>
  \<open>Anteater.update\<close> has two blocks. The first (the extending block) may leave the
  method by \<open>return\<close>; otherwise control falls through to the second (the retracting
  block), which runs in the same call.
\<close>

datatype flow = Returned anteater | Fallthrough anteater

definition new_head_of :: "anteater \<Rightarrow> py_error + cell" where
  "new_head_of s =
     (case tongue s of
        [] \<Rightarrow> Inl IndexError
      | (head_x, head_y) # _ \<Rightarrow>
          (case direction s of (dx, dy) \<Rightarrow> Inr (head_x + dx, head_y + dy)))"

definition out_of_bounds :: "int \<Rightarrow> cell \<Rightarrow> bool" where
  "out_of_bounds g c =
     (let max_x = WIDTH div g - 1;
          max_y = HEIGHT div g - 1
      in case c of (nx, ny) \<Rightarrow> nx < 0 \<or> nx > max_x \<or> ny < 0 \<or> ny > max_y)"

text \<open>The body of the extending block once the move timer has fired (lines 167-205).\<close>

definition advance_head :: "anteater \<Rightarrow> py_error + flow" where
  "advance_head s1 =
     (let s2 = s1\<lparr>move_timer := 0, direction := next_direction s1\<rparr> in
      case new_head_of s2 of
        Inl e \<Rightarrow> Inl e
      | Inr new_head \<Rightarrow>
          if grid_size s2 = 0 then Inl ZeroDivisionError
          else if out_of_bounds (grid_size s2) new_head then
            Inr (Returned (s2\<lparr>extending := False, retracting := True\<rparr>))
          else if new_head \<in> set (tongue s2) then
            (case index_of new_head (tongue s2) of
               None \<Rightarrow> Inr (Fallthrough s2)
             | Some idx \<Rightarrow>
                 (let loop_segment = take (idx + 1) (tongue s2) in
                  Inr (Fallthrough (s2\<lparr> loop_path := loop_segment,
                                          loop_cells := set loop_segment,
                                          loop_active := True,
                                          capture_timer := capture_delay_frames s2,
                                          extending := False,
                                          retracting := True \<rparr>))))
          else if int (length (tongue s2)) < max_segments s2 then
            Inr (Fallthrough (s2\<lparr>tongue := new_head # tongue s2\<rparr>))
          else
            Inr (Fallthrough (s2\<lparr>extending := False, retracting := True\<rparr>)))"

definition extend_block :: "anteater \<Rightarrow> py_error + flow" where
  "extend_block s =
     (if extending s \<and> \<not> loop_active s then
        (let s1 = s\<lparr>move_timer := move_timer s + 1\<rparr> in
         if move_timer s1 \<ge> move_cooldown s1 then advance_head s1
         else Inr (Fallthrough s1))
      else Inr (Fallthrough s))"

text \<open>The retracting block (lines 207-225). \<open>popleft\<close> is guarded by
  \<open>len(self.tongue) > 1\<close>; on an empty deque both \<open>popleft\<close> and the handler's
  \<open>pop\<close> would raise.\<close>

definition retract_block :: "anteater \<Rightarrow> py_error + anteater" where
  "retract_block s =
     (if retracting s then
        (let s1 = s\<lparr>move_timer := move_timer s + 1\<rparr> in
         if move_timer s1 \<ge> move_cooldown s1 then
           (let s2 = s1\<lparr>move_timer := 0\<rparr> in
            if length (tongue s2) > 1 then
              (case tongue s2 of
                 [] \<Rightarrow> Inl IndexError
               | _ # rest \<Rightarrow> Inr (s2\<lparr>tongue := rest\<rparr>))
            else
              Inr (s2\<lparr> retracting := False,
                        direction := (0, 1),
                        next_direction := (0, 1),
                        move_timer := 0 \<rparr>))
         else Inr s1)
      else Inr s)"

definition update :: "anteater \<Rightarrow> py_error + anteater" where
  "update s =
     (case extend_block s of
        Inl e \<Rightarrow> Inl e
      | Inr (Returned s') \<Rightarrow> Inr s'
      | Inr (Fallthrough s') \<Rightarrow> retract_block s')"


section \<open>The surrounding game loop (game.py, module level)\<close>

text \<open>
  The main loop writes the tongue's fields at these places: the space bar starts and
  stops the extension (lines 665-668, 680-684), the R key resets the tongue (lines
  669-679), each frame calls \<open>handle_input\<close> and then \<open>update\<close> (lines 686-694), and the
  capture code releases a loop that trapped nothing (lines 707-712), counts the capture
  timer down (lines 765-766) and clears the loop when the capture completes (lines
  797-799). The ants are not modelled, so the three capture events stand for the branch
  being taken; their guards on the ants are dropped, the guards on the tongue are kept.
\<close>

datatype event =
    Space_down
  | Space_up
  | Key_r
  | Frame keys
  | No_ants_trapped
  | Capture_countdown
  | Capture_complete

fun step :: "anteater \<Rightarrow> event \<Rightarrow> py_error + anteater" where
  "step s Space_down = Inr (s\<lparr>extending := True, retracting := False\<rparr>)"
| "step s Space_up = Inr (s\<lparr>extending := False, retracting := True\<rparr>)"
| "step s Key_r =
     (case reset_tongue s of
        Inl e \<Rightarrow> Inl e
      | Inr s' \<Rightarrow> Inr (s'\<lparr>loop_path := [], loop_cells := {}, capture_timer := 0\<rparr>))"
| "step s (Frame k) = update (handle_input s k)"
| "step s No_ants_trapped =
     (if loop_active s
      then Inr (s\<lparr>loop_active := False, loop_cells := {}, loop_path := [], capture_timer := 0\<rparr>)
      else Inr s)"
| "step s Capture_countdown =
     (if loop_active s \<and> capture_timer s > 0
      then Inr (s\<lparr>capture_timer := capture_timer s - 1\<rparr>)
      else Inr s)"
| "step s Capture_complete =
     (if loop_active s \<and> \<not> capture_timer s > 0
      then Inr (s\<lparr>loop_active := False, loop_cells := {}\<rparr>)
      else Inr s)"

fun run :: "anteater \<Rightarrow> event list \<Rightarrow> py_error + anteater" where
  "run s [] = Inr s"
| "run s (e # es) = (case step s e of Inl err \<Rightarrow> Inl err | Inr s' \<Rightarrow> run s' es)"

text \<open>
  Observations on a run. The extending block applies a direction
  (\<open>self.direction = self.next_direction\<close>) exactly when it is entered with the move
  timer about to fire; \<open>applied_dirs\<close> lists the directions so applied, in order.
\<close>

definition advances :: "anteater \<Rightarrow> bool" where
  "advances s \<longleftrightarrow> extending s \<and> \<not> loop_active s \<and> move_timer s + 1 \<ge> move_cooldown s"

definition opposite :: "int \<times> int \<Rightarrow> int \<times> int" where
  "opposite d = (- fst d, - snd d)"

fun applied_dirs :: "anteater \<Rightarrow> event list \<Rightarrow> (int \<times> int) list" where
  "applied_dirs s [] = []"
| "applied_dirs s (e # es) =
     (case step s e of
        Inl err \<Rightarrow> []
      | Inr s' \<Rightarrow>
          (case e of
             Frame k \<Rightarrow>
               (if advances (handle_input s k) then [next_direction (handle_input s k)] else [])
           | _ \<Rightarrow> []) @ applied_dirs s' es)"

fun no_reversal :: "(int \<times> int) list \<Rightarrow> bool" where
  "no_reversal (d # d' # ds) = (d' \<noteq> opposite d \<and> no_reversal (d' # ds))"
| "no_reversal _ = True"

text \<open>The direction a key state asks for, in the order of the \<open>if\<close>/\<open>elif\<close> chain of
  \<open>handle_input\<close>.\<close>

definition requested_direction :: "keys \<Rightarrow> (int \<times> int) option" where
  "requested_direction k =
     (if K_LEFT k then Some (-1, 0)
      else if K_RIGHT k then Some (1, 0)
      else if K_UP k then Some (0, -1)
      else if K_DOWN k then Some (0, 1)
      else None)"

fun flow_state :: "flow \<Rightarrow> anteater" where
  "flow_state (Returned s) = s"
| "flow_state (Fallthrough s) = s"

text \<open>The module's instance, \<open>anteater = Anteater(grid_size=20)\<close>.\<close>

definition game_anteater :: anteater where
  "game_anteater =
     \<lparr> grid_size = 20, tongue = [(20, 5)], direction = (0, 1), next_direction = (0, 1),
       extending = False, retracting = False, move_cooldown = 5, move_timer = 0,
       max_segments = 40, min_loop_area = 2, loop_active = False, loop_cells = {},
       capture_timer = 0, capture_delay_frames = 60, loop_path = [] \<rparr>"

definition no_keys :: keys where
  "no_keys = \<lparr>K_LEFT = False, K_RIGHT = False, K_UP = False, K_DOWN = False\<rparr>"

definition left_key :: keys where
  "left_key = \<lparr>K_LEFT = True, K_RIGHT = False, K_UP = False, K_DOWN = False\<rparr>"

definition right_key :: keys where
  "right_key = \<lparr>K_LEFT = False, K_RIGHT = True, K_UP = False, K_DOWN = False\<rparr>"

definition up_key :: keys where
  "up_key = \<lparr>K_LEFT = False, K_RIGHT = False, K_UP = True, K_DOWN = False\<rparr>"

section \<open>Tracing the loop polygon (Anteater.get_loop_polygon_pixels)\<close>

text \<open>
  \<open>cells\<close>, \<open>edges\<close> and \<open>loop_cells\<close> are Python sets. What a set contains is modelled
  as a HOL set; the order in which a \<open>for\<close> loop visits it is not determined by the
  source, so the functions that iterate take the visiting order as a list, and the
  theorems hold for every list that enumerates the set.
\<close>

definition enumerates :: "'a list \<Rightarrow> 'a set \<Rightarrow> bool" where
  "enumerates xs S \<longleftrightarrow> distinct xs \<and> set xs = S"

text \<open>The edges one cell contributes (the body of the loop of lines 266-277).\<close>

definition cell_edges :: "int \<Rightarrow> cell set \<Rightarrow> cell \<Rightarrow> edge list" where
  "cell_edges g cells c =
     (case c of (gx, gy) \<Rightarrow>
        (let x0 = gx * g;
             y0 = gy * g;
             x1 = x0 + g;
             y1 = y0 + g;
             neighbors = [(gx, gy - 1), (gx + 1, gy), (gx, gy + 1), (gx - 1, gy)];
             corners = [(x0, y0), (x1, y0), (x1, y1), (x0, y1)]
         in map (\<lambda>i. (corners ! i, corners ! ((i + 1) mod 4)))
              (filter (\<lambda>i. neighbors ! i \<notin> cells) [0..<4])))"

definition boundary_edges :: "int \<Rightarrow> cell set \<Rightarrow> edge set" where
  "boundary_edges g cells = (\<Union>c\<in>cells. set (cell_edges g cells c))"

text \<open>\<open>adj\<close> is a dict from a corner to the list of corners its edges lead to; a dict
  keeps its keys in insertion order, so it is an association list.
  \<open>adj.setdefault(a, []).append(b)\<close>:\<close>

fun setdefault_append :: "(point \<times> point list) list \<Rightarrow> point \<Rightarrow> point \<Rightarrow> (point \<times> point list) list" where
  "setdefault_append [] a b = [(a, [b])]"
| "setdefault_append ((k, l) # rest) a b =
     (if k = a then (k, l @ [b]) # rest else (k, l) # setdefault_append rest a b)"

definition build_adj :: "edge list \<Rightarrow> (point \<times> point list) list" where
  "build_adj es = foldl (\<lambda>adj e. setdefault_append adj (fst e) (snd e)) [] es"

definition adj_get :: "(point \<times> point list) list \<Rightarrow> point \<Rightarrow> point list" where
  "adj_get adj k = (case map_of adj k of None \<Rightarrow> [] | Some l \<Rightarrow> l)"

text \<open>\<open>min(adj.keys(), key=lambda p: (p[1], p[0]))\<close>: the first key whose (y, x) tuple
  is smallest; tuples compare lexicographically.\<close>

definition yx_less :: "point \<Rightarrow> point \<Rightarrow> bool" where
  "yx_less p q \<longleftrightarrow> snd p < snd q \<or> (snd p = snd q \<and> fst p < fst q)"

fun min_yx :: "point \<Rightarrow> point list \<Rightarrow> point" where
  "min_yx m [] = m"
| "min_yx m (p # ps) = min_yx (if yx_less p m then p else m) ps"

text \<open>The \<open>while\<close> loop of lines 292-308; the first argument after \<open>start\<close> is
  \<open>max_steps - steps\<close>.\<close>

fun walk :: "(point \<times> point list) list \<Rightarrow> point \<Rightarrow> nat \<Rightarrow> point \<Rightarrow> point option \<Rightarrow> point list \<Rightarrow> point list" where
  "walk adj start 0 cur prev poly = poly"
| "walk adj start (Suc fuel) cur prev poly =
     (case adj_get adj cur of
        [] \<Rightarrow> poly
      | n0 # ns \<Rightarrow>
          (let nxt = (case find (\<lambda>c. Some c \<noteq> prev) (n0 # ns) of None \<Rightarrow> n0 | Some c \<Rightarrow> c)
           in if nxt = start then poly
              else walk adj start fuel nxt (Some cur) (poly @ [nxt])))"

text \<open>Lines 279-310, from the edge set on; \<open>es\<close> is the order in which \<open>edges\<close> is
  visited. The dict built from a non-empty edge set has a key (lemma
  \<open>build_adj_keys\<close> below), so \<open>min\<close> is never applied to an empty sequence.\<close>

definition trace_boundary :: "edge list \<Rightarrow> point list" where
  "trace_boundary es =
     (if es = [] then []
      else (let adj = build_adj es in
            case map fst adj of
              [] \<Rightarrow> []
            | k # ks \<Rightarrow>
                (let start = min_yx k ks
                 in walk adj start (length es * 3) start None [start])))"

text \<open>
  The fallback of lines 312-323 computes with floats: \<open>sum(...) / len(pts)\<close> is a true
  division of two integers, \<open>p[1] - cy\<close> subtracts a float from an integer, and
  \<open>math.atan2\<close> is the library's. These three operations are parameters, over any
  linearly ordered type of values (no operation here yields a NaN).
  \<open>list.sort\<close> is stable, as \<open>sort_key\<close> is.
\<close>

record 'r float_ops =
  true_div :: "int \<Rightarrow> int \<Rightarrow> 'r"
  int_minus :: "int \<Rightarrow> 'r \<Rightarrow> 'r"
  atan2 :: "'r \<Rightarrow> 'r \<Rightarrow> 'r"

definition cell_center :: "int \<Rightarrow> cell \<Rightarrow> point" where
  "cell_center g c = (case c of (gx, gy) \<Rightarrow> (gx * g + g div 2, gy * g + g div 2))"

definition centroid_angle :: "'r float_ops \<Rightarrow> point list \<Rightarrow> point \<Rightarrow> 'r" where
  "centroid_angle fo pts p =
     (let cx = true_div fo (sum_list (map fst pts)) (int (length pts));
          cy = true_div fo (sum_list (map snd pts)) (int (length pts))
      in atan2 fo (int_minus fo (snd p) cy) (int_minus fo (fst p) cx))"

definition fallback_polygon :: "('r::linorder) float_ops \<Rightarrow> int \<Rightarrow> cell list \<Rightarrow> point list" where
  "fallback_polygon fo g cs =
     (let pts = map (cell_center g) cs
      in if pts = [] then [] else sort_key (centroid_angle fo pts) pts)"

text \<open>The method: \<open>cs\<close> is the order in which \<open>self.loop_cells\<close> is visited, \<open>es\<close> the
  order in which the edge set built from \<open>set(self.loop_path)\<close> is visited.\<close>

definition get_loop_polygon_pixels ::
    "('r::linorder) float_ops \<Rightarrow> cell list \<Rightarrow> edge list \<Rightarrow> anteater \<Rightarrow> point list" where
  "get_loop_polygon_pixels fo cs es s =
     (if loop_cells s = {} then []
      else if loop_path s \<noteq> [] \<and> int (length (loop_path s)) \<ge> min_loop_area s
        then trace_boundary es
      else fallback_polygon fo (grid_size s) cs)"

text \<open>Exact real arithmetic as one instance of the float operations; \<open>atan2 y x\<close> is
  the argument of \<open>x + iy\<close>.\<close>

definition exact_ops :: "real float_ops" where
  "exact_ops = \<lparr> true_div = (\<lambda>a b. real_of_int a / real_of_int b),
                  int_minus = (\<lambda>a r. real_of_int a - r),
                  atan2 = (\<lambda>y x. Arg (Complex x y)) \<rparr>"

section \<open>Point in polygon (game.py, point\_in\_polygon)\<close>




section \<open>Concrete states used to exercise the theorems\<close>

text \<open>The tongue's head in the bottom row, moving down, one frame before the move.\<close>

definition at_bottom_edge :: anteater where
  "at_bottom_edge =
     game_anteater\<lparr>tongue := [(20, 29), (20, 28)], extending := True, move_timer := 4\<rparr>"

text \<open>A tongue that has gone up, left and down, about to turn right into its tail.\<close>

definition closing_square :: anteater where
  "closing_square =
     game_anteater\<lparr> tongue := [(5, 6), (5, 5), (6, 5), (6, 6)],
                     next_direction := (1, 0), extending := True, move_timer := 4 \<rparr>"

definition at_max_length :: anteater where
  "at_max_length = closing_square\<lparr>max_segments := 4\<rparr>"

text \<open>A two-cell tongue being pulled back, one frame before the move.\<close>

definition pulling_back :: anteater where
  "pulling_back =
     game_anteater\<lparr> tongue := [(20, 6), (20, 5)], direction := (-1, 0),
                     next_direction := (0, -1), retracting := True, move_timer := 4 \<rparr>"

text \<open>A 3 by 3 block of cells with its upper left cell at \<open>(cx, cy)\<close>, and the corners
  of the unit edges on its outline, clockwise from the upper left corner.\<close>

definition block3 :: "int \<Rightarrow> int \<Rightarrow> cell set" where
  "block3 cx cy = (\<lambda>(i, j). (cx + i, cy + j)) ` ({0, 1, 2} \<times> {0, 1, 2})"

definition block3_perimeter :: "int \<Rightarrow> int \<Rightarrow> int \<Rightarrow> point list" where
  "block3_perimeter g cx cy =
     (let x = cx * g; y = cy * g
      in [(x, y), (x + g, y), (x + 2 * g, y), (x + 3 * g, y),
          (x + 3 * g, y + g), (x + 3 * g, y + 2 * g), (x + 3 * g, y + 3 * g),
          (x + 2 * g, y + 3 * g), (x + g, y + 3 * g), (x, y + 3 * g),
          (x, y + 2 * g), (x, y + g)])"

text \<open>A state whose loop path covers the block of cells 5..7 by 5..7, one order in
  which its twelve boundary edges may be visited, and a state whose loop is one cell.\<close>

definition block3_state :: anteater where
  "block3_state =
     game_anteater\<lparr> loop_path := [(5, 5), (6, 5), (7, 5), (7, 6), (6, 6), (5, 6), (5, 7), (6, 7), (7, 7)],
                     loop_cells := {(5, 5), (6, 5), (7, 5), (7, 6), (6, 6), (5, 6), (5, 7), (6, 7), (7, 7)},
                     loop_active := True \<rparr>"

definition block3_edge_order :: "edge list" where
  "block3_edge_order =
     [((100, 100), (120, 100)), ((100, 120), (100, 100)), ((120, 100), (140, 100)),
      ((140, 100), (160, 100)), ((160, 100), (160, 120)), ((100, 140), (100, 120)),
      ((160, 120), (160, 140)), ((120, 160), (100, 160)), ((100, 160), (100, 140)),
      ((140, 160), (120, 160)), ((160, 140), (160, 160)), ((160, 160), (140, 160))]"


text \<open>Scenario A of the specification: hold the space bar, let the tongue run down for ten
  moves (no arrow key), left for five, up for ten and right for five; a move happens
  every fifth frame. \<open>scenario_A_closing\<close> is the state one frame before the last move,
  \<open>scenario_A_final\<close> the state after it; \<open>outline_6x11\<close> is the outline of the block of
  columns 15..20 and rows 5..15.\<close>

definition scenario_A :: "event list" where
  "scenario_A = Space_down # replicate 50 (Frame no_keys) @ replicate 25 (Frame left_key)
      @ replicate 50 (Frame up_key) @ replicate 25 (Frame right_key)"

definition scenario_A_path :: "cell list" where
  "scenario_A_path =
     [(19, 5), (18, 5), (17, 5), (16, 5), (15, 5), (15, 6), (15, 7), (15, 8),
      (15, 9), (15, 10), (15, 11), (15, 12), (15, 13), (15, 14), (15, 15),
      (16, 15), (17, 15), (18, 15), (19, 15), (20, 15), (20, 14), (20, 13),
      (20, 12), (20, 11), (20, 10), (20, 9), (20, 8), (20, 7), (20, 6), (20, 5)]"

definition scenario_A_final :: anteater where
  "scenario_A_final =
     game_anteater\<lparr> tongue := scenario_A_path, direction := (1, 0), next_direction := (1, 0),
                     extending := False, retracting := True, move_timer := 1,
                     loop_active := True, loop_cells := set scenario_A_path,
                     capture_timer := 60, loop_path := scenario_A_path \<rparr>"

definition scenario_A_closing :: anteater where
  "scenario_A_closing =
     game_anteater\<lparr> tongue := scenario_A_path, direction := (1, 0), next_direction := (1, 0),
                     extending := True, move_timer := 4 \<rparr>"

definition outline_6x11 :: "cell set" where
  "outline_6x11 =
     set [(x, y). x \<leftarrow> [15..20], y \<leftarrow> [5..15], x = 15 \<or> x = 20 \<or> y = 5 \<or> y = 15]"

text \<open>The facts about a state that every run from the constructor preserves: the grid
  size is not zero, the tongue is not empty, and the buffered direction is neither
  the zero vector nor the opposite of the direction in force.\<close>

definition state_ok :: "anteater \<Rightarrow> bool" where
  "state_ok s \<longleftrightarrow>
     grid_size s \<noteq> 0 \<and> tongue s \<noteq> [] \<and>
     next_direction s \<noteq> (0, 0) \<and> next_direction s \<noteq> opposite (direction s)"

text \<open>A run in which the tongue goes down, left and up, is pulled back completely, and is
  launched again; and the state four idle frames after the space bar went down.\<close>

definition reversal_events :: "event list" where
  "reversal_events =
     Space_down # replicate 5 (Frame no_keys) @ replicate 5 (Frame left_key)
       @ replicate 5 (Frame up_key) @ Space_up # replicate 20 (Frame no_keys)
       @ Space_down # replicate 5 (Frame no_keys)"

definition about_to_move :: anteater where
  "about_to_move = game_anteater\<lparr>extending := True, move_timer := 4\<rparr>"









section \<open>The per-frame update: lemmas\<close>

lemma index_of_Some_iff:
  "index_of v xs = Some i \<longleftrightarrow> i < length xs \<and> xs ! i = v \<and> (\<forall>j<i. xs ! j \<noteq> v)"
proof (induction xs arbitrary: i)
  case Nil
  then show ?case by simp
next
  case (Cons x xs)
  show ?case
  proof (cases "x = v")
    case True
    then show ?thesis by (cases i) auto
  next
    case False
    show ?thesis
    proof (cases i)
      case 0
      with False show ?thesis by (auto split: option.splits)
    next
      case (Suc k)
      have "(\<forall>j<Suc k. (x # xs) ! j \<noteq> v) \<longleftrightarrow> (\<forall>j<k. xs ! j \<noteq> v)"
        using False by (auto simp: less_Suc_eq_0_disj)
      with Suc False Cons.IH[of k] show ?thesis
        by (auto split: option.splits)
    qed
  qed
qed

lemma index_of_distinct:
  "distinct xs \<Longrightarrow> i < length xs \<Longrightarrow> index_of (xs ! i) xs = Some i"
  by (auto simp: index_of_Some_iff nth_eq_iff_index_eq)

lemma index_of_mem: "v \<in> set xs \<Longrightarrow> \<exists>i. index_of v xs = Some i"
  by (induction xs) auto

lemma new_head_of_cong:
  "tongue s = tongue t \<Longrightarrow> direction s = direction t \<Longrightarrow> new_head_of s = new_head_of t"
  by (simp add: new_head_of_def split: list.splits prod.splits)

lemma retract_block_keeps:
  assumes "tongue s \<noteq> []"
  shows "\<exists>s'. retract_block s = Inr s' \<and> loop_active s' = loop_active s \<and>
           extending s' = extending s \<and> loop_path s' = loop_path s \<and>
           loop_cells s' = loop_cells s \<and> capture_timer s' = capture_timer s"
proof (cases "tongue s")
  case Nil
  with assms show ?thesis by simp
next
  case (Cons x xs)
  then show ?thesis by (simp add: retract_block_def Let_def)
qed

lemma advance_head_loop:
  assumes "grid_size s1 \<noteq> 0"
    and "new_head_of (s1\<lparr>direction := next_direction s1\<rparr>) = Inr c"
    and "\<not> out_of_bounds (grid_size s1) c"
    and "index_of c (tongue s1) = Some i"
  shows "advance_head s1 =
           Inr (Fallthrough (s1\<lparr> move_timer := 0, direction := next_direction s1,
                  loop_path := take (i + 1) (tongue s1),
                  loop_cells := set (take (i + 1) (tongue s1)),
                  loop_active := True,
                  capture_timer := capture_delay_frames s1,
                  extending := False, retracting := True \<rparr>))"
proof -
  have mem: "c \<in> set (tongue s1)"
    using assms(4) by (auto simp: index_of_Some_iff)
  have nh: "new_head_of (s1\<lparr>move_timer := 0, direction := next_direction s1\<rparr>) = Inr c"
    using assms(2) new_head_of_cong[of "s1\<lparr>move_timer := 0, direction := next_direction s1\<rparr>" "s1\<lparr>direction := next_direction s1\<rparr>"]
    by simp
  show ?thesis
    using assms(1,3,4) mem nh by (simp add: advance_head_def Let_def)
qed

section \<open>The per-frame update: properties\<close>

text \<open>
  Claim C1. Let the extending block fire on a tongue without duplicate cells, with the
  new head \<open>c\<close> inside the grid and equal to the tongue's cell at index \<open>i\<close>.
  Then \<open>i\<close> is the index \<open>list.index\<close> finds, no cell nearer to the head equals
  \<open>c\<close>, and \<open>update\<close> returns the state in which the tongue is unchanged, the loop is
  active, \<open>loop_path\<close> is the head-first prefix of the tongue up to and including index
  \<open>i\<close>, and \<open>loop_cells\<close> is the set of that prefix. The retracting block runs in the
  same call with the timer at 1, so the tongue stays as it is because the move
  cooldown exceeds 1 (it is the constant 5 in the program).
\<close>

theorem self_intersection_loop:
  assumes "extending s" and "\<not> loop_active s"
    and "move_cooldown s \<le> move_timer s + 1" and "1 < move_cooldown s"
    and "grid_size s \<noteq> 0"
    and "distinct (tongue s)"
    and "new_head_of (s\<lparr>direction := next_direction s\<rparr>) = Inr c"
    and "\<not> out_of_bounds (grid_size s) c"
    and "i < length (tongue s)" and "tongue s ! i = c"
  shows "index_of c (tongue s) = Some i \<and> (\<forall>j<i. tongue s ! j \<noteq> c) \<and>
         update s = Inr (s\<lparr> move_timer := 1, direction := next_direction s,
                              loop_path := take (i + 1) (tongue s),
                              loop_cells := set (take (i + 1) (tongue s)),
                              loop_active := True,
                              capture_timer := capture_delay_frames s,
                              extending := False, retracting := True \<rparr>)"
proof -
  have idx: "index_of c (tongue s) = Some i"
    using assms(6,9,10) index_of_distinct by blast
  then have first: "\<forall>j<i. tongue s ! j \<noteq> c"
    by (simp add: index_of_Some_iff)
  let ?s1 = "s\<lparr>move_timer := move_timer s + 1\<rparr>"
  have nh: "new_head_of (?s1\<lparr>direction := next_direction ?s1\<rparr>) = Inr c"
    using assms(7) new_head_of_cong[of "?s1\<lparr>direction := next_direction ?s1\<rparr>" "s\<lparr>direction := next_direction s\<rparr>"]
    by simp
  have adv: "advance_head ?s1 = Inr (Fallthrough (?s1\<lparr> move_timer := 0, direction := next_direction ?s1,
                  loop_path := take (i + 1) (tongue ?s1),
                  loop_cells := set (take (i + 1) (tongue ?s1)),
                  loop_active := True,
                  capture_timer := capture_delay_frames ?s1,
                  extending := False, retracting := True \<rparr>))"
    by (rule advance_head_loop) (use assms(5,8) nh idx in simp_all)
  have "update s = Inr (s\<lparr> move_timer := 1, direction := next_direction s,
                              loop_path := take (i + 1) (tongue s),
                              loop_cells := set (take (i + 1) (tongue s)),
                              loop_active := True,
                              capture_timer := capture_delay_frames s,
                              extending := False, retracting := True \<rparr>)"
    using assms(1-4) adv by (simp add: update_def extend_block_def retract_block_def)
  with idx first show ?thesis by blast
qed

theorem self_intersection_loop_witness:
  "update closing_square =
     Inr (closing_square\<lparr> move_timer := 1, direction := (1, 0),
            loop_path := [(5, 6), (5, 5), (6, 5), (6, 6)],
            loop_cells := {(5, 6), (5, 5), (6, 5), (6, 6)},
            loop_active := True, capture_timer := 60,
            extending := False, retracting := True \<rparr>)"
proof -
  have "extending closing_square" "\<not> loop_active closing_square"
    "move_cooldown closing_square \<le> move_timer closing_square + 1"
    "1 < move_cooldown closing_square" "grid_size closing_square \<noteq> 0"
    "distinct (tongue closing_square)"
    "new_head_of (closing_square\<lparr>direction := next_direction closing_square\<rparr>) = Inr (6, 6)"
    "\<not> out_of_bounds (grid_size closing_square) (6, 6)"
    "3 < length (tongue closing_square)" "tongue closing_square ! 3 = (6, 6)"
    by (simp_all add: closing_square_def game_anteater_def new_head_of_def out_of_bounds_def
        WIDTH_def HEIGHT_def)
  from self_intersection_loop[OF this] show ?thesis
    by (simp add: closing_square_def game_anteater_def)
qed

text \<open>
  Claim C4. When the extending block fires and the new head lies outside the grid,
  \<open>update\<close> returns normally with only the timer, the direction in force and the two
  mode flags changed: extending is off and retracting is on. The tongue and the loop
  fields (\<open>loop_active\<close>, \<open>loop_path\<close>, \<open>loop_cells\<close>, \<open>capture_timer\<close>) are those of
  the state before, whether or not the new head equals a cell of the tongue: the
  bounds test comes first and leaves the method.
\<close>

theorem out_of_bounds_rejected:
  assumes "extending s" and "\<not> loop_active s"
    and "move_cooldown s \<le> move_timer s + 1"
    and "grid_size s \<noteq> 0"
    and "new_head_of (s\<lparr>direction := next_direction s\<rparr>) = Inr c"
    and "out_of_bounds (grid_size s) c"
  shows "update s = Inr (s\<lparr> move_timer := 0, direction := next_direction s,
                             extending := False, retracting := True \<rparr>)"
  using assms
  by (simp add: update_def extend_block_def advance_head_def new_head_of_def
      split: list.splits prod.splits)

theorem out_of_bounds_rejected_witness:
  "out_of_bounds 20 (20, 30) \<and>
   update at_bottom_edge = Inr (at_bottom_edge\<lparr> move_timer := 0, extending := False, retracting := True \<rparr>)"
proof -
  have h: "extending at_bottom_edge" "\<not> loop_active at_bottom_edge"
    "move_cooldown at_bottom_edge \<le> move_timer at_bottom_edge + 1"
    "grid_size at_bottom_edge \<noteq> 0"
    "new_head_of (at_bottom_edge\<lparr>direction := next_direction at_bottom_edge\<rparr>) = Inr (20, 30)"
    "out_of_bounds (grid_size at_bottom_edge) (20, 30)"
    by (simp_all add: at_bottom_edge_def game_anteater_def new_head_of_def
        out_of_bounds_def WIDTH_def HEIGHT_def)
  from out_of_bounds_rejected[OF h] h(6) show ?thesis
    by (simp add: at_bottom_edge_def game_anteater_def)
qed

text \<open>
  Claim C6. In a state that is retracting and in which the extending block does not
  run, a frame on which the move timer fires removes the head when the tongue has more
  than one cell. Otherwise the tongue is left as it is, retracting is switched off, and
  the direction and the buffered next direction are both set to (0, 1).
\<close>

theorem retracting_tick:
  assumes "retracting s" and "\<not> extending s \<or> loop_active s"
    and "move_cooldown s \<le> move_timer s + 1"
  shows "update s = Inr (if length (tongue s) > 1
                         then s\<lparr> move_timer := 0, tongue := tl (tongue s) \<rparr>
                         else s\<lparr> move_timer := 0, retracting := False,
                                  direction := (0, 1), next_direction := (0, 1) \<rparr>)"
  using assms
  by (auto simp: update_def extend_block_def retract_block_def split: list.splits)

theorem retracting_tick_witness:
  "update pulling_back = Inr (pulling_back\<lparr>move_timer := 0, tongue := [(20, 5)]\<rparr>) \<and>
   update (pulling_back\<lparr>tongue := [(20, 5)]\<rparr>) =
     Inr (pulling_back\<lparr> tongue := [(20, 5)], move_timer := 0, retracting := False,
                         direction := (0, 1), next_direction := (0, 1) \<rparr>)"
proof -
  have h: "retracting pulling_back" "\<not> extending pulling_back \<or> loop_active pulling_back"
    "move_cooldown pulling_back \<le> move_timer pulling_back + 1"
    by (simp_all add: pulling_back_def game_anteater_def)
  have h': "retracting (pulling_back\<lparr>tongue := [(20, 5)]\<rparr>)"
    "\<not> extending (pulling_back\<lparr>tongue := [(20, 5)]\<rparr>) \<or> loop_active (pulling_back\<lparr>tongue := [(20, 5)]\<rparr>)"
    "move_cooldown (pulling_back\<lparr>tongue := [(20, 5)]\<rparr>) \<le> move_timer (pulling_back\<lparr>tongue := [(20, 5)]\<rparr>) + 1"
    by (simp_all add: pulling_back_def game_anteater_def)
  from retracting_tick[OF h] retracting_tick[OF h'] show ?thesis
    by (simp add: pulling_back_def game_anteater_def)
qed

text \<open>
  Claim C10. When the extending block fires with the tongue already at
  \<open>max_segments\<close> cells or more and the new head (inside the grid) is a cell of the
  tongue, \<open>update\<close> returns a state with the loop formed: \<open>loop_active\<close> holds,
  \<open>loop_path\<close> and \<open>loop_cells\<close> are the prefix of the tongue up to the index of the
  revisited cell, and the capture timer is started. The membership test comes before
  the length test.
\<close>

theorem self_intersection_before_max_length:
  assumes "extending s" and "\<not> loop_active s"
    and "move_cooldown s \<le> move_timer s + 1"
    and "grid_size s \<noteq> 0"
    and "new_head_of (s\<lparr>direction := next_direction s\<rparr>) = Inr c"
    and "\<not> out_of_bounds (grid_size s) c"
    and "c \<in> set (tongue s)"
    and "max_segments s \<le> int (length (tongue s))"
  shows "\<exists>i s'. index_of c (tongue s) = Some i \<and> update s = Inr s' \<and>
           loop_active s' \<and> \<not> extending s' \<and>
           loop_path s' = take (i + 1) (tongue s) \<and>
           loop_cells s' = set (take (i + 1) (tongue s)) \<and>
           capture_timer s' = capture_delay_frames s"
proof -
  from index_of_mem[OF assms(7)]
  obtain i where idx: "index_of c (tongue s) = Some i" ..
  let ?s1 = "s\<lparr>move_timer := move_timer s + 1\<rparr>"
  let ?s2 = "?s1\<lparr> move_timer := 0, direction := next_direction ?s1,
                  loop_path := take (i + 1) (tongue ?s1),
                  loop_cells := set (take (i + 1) (tongue ?s1)),
                  loop_active := True,
                  capture_timer := capture_delay_frames ?s1,
                  extending := False, retracting := True \<rparr>"
  have nh: "new_head_of (?s1\<lparr>direction := next_direction ?s1\<rparr>) = Inr c"
    using assms(5) new_head_of_cong[of "?s1\<lparr>direction := next_direction ?s1\<rparr>" "s\<lparr>direction := next_direction s\<rparr>"]
    by simp
  have adv: "advance_head ?s1 = Inr (Fallthrough ?s2)"
    by (rule advance_head_loop) (use assms(4,6) nh idx in simp_all)
  have upd: "update s = retract_block ?s2"
    using assms(1-3) adv by (simp add: update_def extend_block_def)
  have "tongue s \<noteq> []"
    using assms(7) by (cases "tongue s") simp_all
  then have "tongue ?s2 \<noteq> []"
    by simp
  from retract_block_keeps[OF this]
  obtain s' where s': "retract_block ?s2 = Inr s'"
    and keep: "loop_active s' = loop_active ?s2" "extending s' = extending ?s2"
      "loop_path s' = loop_path ?s2" "loop_cells s' = loop_cells ?s2"
      "capture_timer s' = capture_timer ?s2"
    by blast
  have "index_of c (tongue s) = Some i \<and> update s = Inr s' \<and>
           loop_active s' \<and> \<not> extending s' \<and>
           loop_path s' = take (i + 1) (tongue s) \<and>
           loop_cells s' = set (take (i + 1) (tongue s)) \<and>
           capture_timer s' = capture_delay_frames s"
    using idx upd s' keep by simp
  then show ?thesis
    by (intro exI)
qed

theorem self_intersection_before_max_length_witness:
  "max_segments at_max_length \<le> int (length (tongue at_max_length)) \<and>
   (\<exists>i s'. index_of (6, 6) (tongue at_max_length) = Some i \<and> update at_max_length = Inr s' \<and>
           loop_active s' \<and> \<not> extending s' \<and>
           loop_path s' = take (i + 1) (tongue at_max_length) \<and>
           loop_cells s' = set (take (i + 1) (tongue at_max_length)) \<and>
           capture_timer s' = capture_delay_frames at_max_length)"
proof -
  have h: "extending at_max_length" "\<not> loop_active at_max_length"
    "move_cooldown at_max_length \<le> move_timer at_max_length + 1"
    "grid_size at_max_length \<noteq> 0"
    "new_head_of (at_max_length\<lparr>direction := next_direction at_max_length\<rparr>) = Inr (6, 6)"
    "\<not> out_of_bounds (grid_size at_max_length) (6, 6)"
    "(6, 6) \<in> set (tongue at_max_length)"
    "max_segments at_max_length \<le> int (length (tongue at_max_length))"
    by (simp_all add: at_max_length_def closing_square_def game_anteater_def new_head_of_def
        out_of_bounds_def WIDTH_def HEIGHT_def)
  show ?thesis
    by (rule conjI) (rule h(8), rule self_intersection_before_max_length[OF h])
qed

section \<open>Tracing the loop polygon: lemmas and properties\<close>

lemma adj_get_setdefault_append:
  "adj_get (setdefault_append adj a b) k =
     (if k = a then adj_get adj k @ [b] else adj_get adj k)"
  by (induction adj a b rule: setdefault_append.induct) (auto simp: adj_get_def)

lemma build_adj_snoc:
  "build_adj (es @ [e]) = setdefault_append (build_adj es) (fst e) (snd e)"
  by (simp add: build_adj_def)

lemma adj_get_build_adj:
  "adj_get (build_adj es) k = map snd (filter (\<lambda>e. fst e = k) es)"
proof (induction es rule: rev_induct)
  case Nil
  show ?case by (simp add: build_adj_def adj_get_def)
next
  case (snoc e es)
  then show ?case
    by (auto simp: build_adj_snoc adj_get_setdefault_append)
qed

lemma keys_setdefault_append:
  "fst ` set (setdefault_append adj a b) = insert a (fst ` set adj)"
  by (induction adj a b rule: setdefault_append.induct) auto

lemma build_adj_keys: "set (map fst (build_adj es)) = fst ` set es"
proof (induction es rule: rev_induct)
  case Nil
  show ?case by (simp add: build_adj_def)
next
  case (snoc e es)
  then show ?case
    by (simp add: build_adj_snoc keys_setdefault_append)
qed

lemma build_adj_nonempty: "es \<noteq> [] \<Longrightarrow> map fst (build_adj es) \<noteq> []"
proof
  assume "es \<noteq> []" and "map fst (build_adj es) = []"
  then have "fst ` set es = {}"
    using build_adj_keys[of es] by simp
  with \<open>es \<noteq> []\<close> show False by simp
qed

lemma min_yx_mem: "min_yx m ps \<in> set (m # ps)"
  by (induction ps arbitrary: m) auto

lemma min_yx_least: "p \<in> set (m # ps) \<Longrightarrow> \<not> yx_less p (min_yx m ps)"
proof (induction ps arbitrary: m p)
  case Nil
  then show ?case by (simp add: yx_less_def)
next
  case (Cons q ps)
  let ?m' = "if yx_less q m then q else m"
  have r: "\<not> yx_less ?m' (min_yx ?m' ps)"
    by (rule Cons.IH) simp
  show ?case
  proof (cases "p \<in> set ps")
    case True
    then show ?thesis using Cons.IH[of p ?m'] by simp
  next
    case False
    with Cons.prems have "p = m \<or> p = q" by auto
    then have "\<not> yx_less p ?m'"
      by (auto simp: yx_less_def)
    with r have "\<not> yx_less p (min_yx ?m' ps)"
      by (auto simp: yx_less_def split: if_splits)
    then show ?thesis by simp
  qed
qed

lemma walk_extends: "\<exists>rest. walk adj start fuel cur prev poly = poly @ rest"
proof (induction fuel arbitrary: cur prev poly)
  case 0
  show ?case by simp
next
  case (Suc fuel)
  show ?case
  proof (cases "adj_get adj cur")
    case Nil
    then show ?thesis by simp
  next
    case (Cons n0 ns)
    let ?nxt = "case find (\<lambda>c. Some c \<noteq> prev) (n0 # ns) of None \<Rightarrow> n0 | Some c \<Rightarrow> c"
    show ?thesis
    proof (cases "?nxt = start")
      case True
      with Cons show ?thesis by (simp add: Let_def)
    next
      case False
      from Suc.IH[of ?nxt "Some cur" "poly @ [?nxt]"]
      obtain rest where "walk adj start fuel ?nxt (Some cur) (poly @ [?nxt]) = (poly @ [?nxt]) @ rest" ..
      with Cons False show ?thesis by (simp add: Let_def)
    qed
  qed
qed

lemma trace_boundary_nonempty:
  assumes "es \<noteq> []"
  shows "trace_boundary es \<noteq> []"
proof -
  from build_adj_nonempty[OF assms]
  obtain k ks where keys: "map fst (build_adj es) = k # ks"
    by (cases "map fst (build_adj es)") auto
  from walk_extends[of "build_adj es" "min_yx k ks" "length es * 3" "min_yx k ks" None "[min_yx k ks]"]
  obtain rest where "walk (build_adj es) (min_yx k ks) (length es * 3) (min_yx k ks) None [min_yx k ks]
      = [min_yx k ks] @ rest" ..
  with assms keys show ?thesis
    by (simp add: trace_boundary_def Let_def)
qed

lemma top_edge_emitted:
  assumes "(gx, gy) \<in> cells" and "(gx, gy - 1) \<notin> cells"
  shows "((gx * g, gy * g), (gx * g + g, gy * g)) \<in> boundary_edges g cells"
proof -
  have "[0..<4] = [0, 1, 2, 3]"
    by (simp add: upt_rec)
  then have "((gx * g, gy * g), (gx * g + g, gy * g)) \<in> set (cell_edges g cells (gx, gy))"
    using assms(2) by (simp add: cell_edges_def Let_def)
  with assms(1) show ?thesis
    unfolding boundary_edges_def by blast
qed

lemma minimal_row_cell:
  fixes cells :: "cell set"
  assumes "finite cells" and "cells \<noteq> {}"
  shows "\<exists>c\<in>cells. (\<forall>c'\<in>cells. snd c \<le> snd c') \<and> (fst c, snd c - 1) \<notin> cells"
proof -
  have fin: "finite (snd ` cells)" and ne: "snd ` cells \<noteq> {}"
    using assms by simp_all
  from Min_in[OF fin ne] obtain c where c: "c \<in> cells" "snd c = Min (snd ` cells)"
    by auto
  have least: "\<forall>c'\<in>cells. snd c \<le> snd c'"
    using c(2) fin by simp
  have "(fst c, snd c - 1) \<notin> cells"
  proof
    assume "(fst c, snd c - 1) \<in> cells"
    with least have "snd c \<le> snd (fst c, snd c - 1)" by blast
    then show False by simp
  qed
  with c(1) least show ?thesis by blast
qed

text \<open>
  Claim C9. When the method takes the primary path (loop cells present, loop path
  non-empty and at least \<open>min_loop_area\<close> long), some cell of minimal row has its upper
  neighbour outside the cell set and its top edge is a boundary edge; so every
  enumeration \<open>es\<close> of the edge set is non-empty, the branch \<open>if not edges\<close> is not
  taken, and the polygon returned is not empty.
\<close>

theorem primary_trace_nonempty:
  assumes "loop_cells s \<noteq> {}"
    and "loop_path s \<noteq> []"
    and "min_loop_area s \<le> int (length (loop_path s))"
    and "enumerates es (boundary_edges (grid_size s) (set (loop_path s)))"
  shows "(\<exists>c\<in>set (loop_path s).
            (\<forall>c'\<in>set (loop_path s). snd c \<le> snd c') \<and>
            (fst c, snd c - 1) \<notin> set (loop_path s) \<and>
            ((fst c * grid_size s, snd c * grid_size s),
             (fst c * grid_size s + grid_size s, snd c * grid_size s))
              \<in> boundary_edges (grid_size s) (set (loop_path s))) \<and>
         es \<noteq> [] \<and>
         get_loop_polygon_pixels fo cs es s = trace_boundary es \<and>
         get_loop_polygon_pixels fo cs es s \<noteq> []"
proof -
  let ?cells = "set (loop_path s)"
  have "finite ?cells" and "?cells \<noteq> {}"
    using assms(2) by simp_all
  from minimal_row_cell[OF this]
  obtain c where c: "c \<in> ?cells" "\<forall>c'\<in>?cells. snd c \<le> snd c'" "(fst c, snd c - 1) \<notin> ?cells"
    by blast
  have edge: "((fst c * grid_size s, snd c * grid_size s),
               (fst c * grid_size s + grid_size s, snd c * grid_size s))
                \<in> boundary_edges (grid_size s) ?cells"
    using top_edge_emitted[of "fst c" "snd c" ?cells "grid_size s"] c(1,3) by simp
  then have "set es \<noteq> {}"
    using assms(4) by (auto simp: enumerates_def)
  then have ne: "es \<noteq> []" by auto
  have res: "get_loop_polygon_pixels fo cs es s = trace_boundary es"
    using assms(1-3) by (simp add: get_loop_polygon_pixels_def)
  from c edge ne res trace_boundary_nonempty[OF ne] show ?thesis
    by auto
qed

lemma distinct_singleton_set:
  assumes "distinct xs" and "set xs = {x}"
  shows "xs = [x]"
proof -
  have "length xs = card (set xs)"
    using assms(1) by (simp add: distinct_card)
  then have "length xs = 1"
    using assms(2) by simp
  then obtain y where "xs = [y]"
    by (cases xs) auto
  with assms(2) show ?thesis by simp
qed

lemma zip_rotate1_nth:
  assumes "i < length P"
  shows "zip P (rotate1 P) ! i = (P ! i, P ! (Suc i mod length P))"
  using assms by (simp add: nth_rotate1)

lemma cycle_edge_mem:
  assumes "i < length P"
  shows "(P ! i, P ! (Suc i mod length P)) \<in> set (zip P (rotate1 P))"
proof -
  have "i < length (zip P (rotate1 P))"
    using assms by simp
  from nth_mem[OF this] show ?thesis
    using zip_rotate1_nth[OF assms] by simp
qed

lemma cycle_successor:
  assumes "distinct P" and "enumerates es (set (zip P (rotate1 P)))" and "i < length P"
  shows "adj_get (build_adj es) (P ! i) = [P ! (Suc i mod length P)]"
proof -
  let ?a = "P ! i" and ?b = "P ! (Suc i mod length P)"
  let ?f = "filter (\<lambda>e. fst e = ?a) es"
  have dist: "distinct ?f"
    using assms(2) by (simp add: enumerates_def)
  have "set ?f = {e \<in> set (zip P (rotate1 P)). fst e = ?a}"
    using assms(2) by (auto simp: enumerates_def)
  also have "\<dots> = {(?a, ?b)}"
  proof (rule equalityI; rule subsetI)
    fix e assume "e \<in> {e \<in> set (zip P (rotate1 P)). fst e = ?a}"
    then have mem: "e \<in> set (zip P (rotate1 P))" and fst: "fst e = ?a" by simp_all
    from mem obtain j where j: "j < length P" "e = zip P (rotate1 P) ! j"
      by (auto simp: in_set_conv_nth)
    from j(2) zip_rotate1_nth[OF j(1)] have e: "e = (P ! j, P ! (Suc j mod length P))"
      by (simp only:)
    with fst have "P ! j = P ! i" by simp
    with assms(1,3) j(1) have "j = i"
      by (simp add: nth_eq_iff_index_eq)
    with e show "e \<in> {(?a, ?b)}" by simp
  next
    fix e assume "e \<in> {(?a, ?b)}"
    then show "e \<in> {e \<in> set (zip P (rotate1 P)). fst e = ?a}"
      using cycle_edge_mem[OF assms(3)] by simp
  qed
  finally have "?f = [(?a, ?b)]"
    using dist by (rule distinct_singleton_set[rotated])
  then show ?thesis
    by (simp add: adj_get_build_adj)
qed

lemma walk_cycle:
  assumes "distinct P"
    and "\<forall>i<length P. adj_get adj (P ! i) = [P ! (Suc i mod length P)]"
    and "i < length P" and "length P - i \<le> fuel"
  shows "walk adj (P ! 0) fuel (P ! i) prev (take (Suc i) P) = P"
  using assms(3,4)
proof (induction fuel arbitrary: i prev)
  case 0
  then show ?case by simp
next
  case (Suc fuel)
  let ?n = "P ! (Suc i mod length P)"
  have nexts: "adj_get adj (P ! i) = [?n]"
    using assms(2) Suc.prems(1) by blast
  have nxt: "(case find (\<lambda>c. Some c \<noteq> prev) [?n] of None \<Rightarrow> ?n | Some c \<Rightarrow> c) = ?n"
    by simp
  show ?case
  proof (cases "Suc i = length P")
    case True
    then have "?n = P ! 0" by simp
    moreover have "take (Suc i) P = P" using True by simp
    ultimately show ?thesis
      using nexts nxt by (simp add: Let_def)
  next
    case False
    with Suc.prems(1) have lt: "Suc i < length P" by simp
    then have n: "?n = P ! Suc i" by simp
    have "0 < length P" using lt by (cases P) simp_all
    from nth_eq_iff_index_eq[OF assms(1) lt this] have "P ! Suc i \<noteq> P ! 0"
      by simp
    moreover have "take (Suc i) P @ [P ! Suc i] = take (Suc (Suc i)) P"
      using lt by (simp add: take_Suc_conv_app_nth)
    moreover have "walk adj (P ! 0) fuel (P ! Suc i) (Some (P ! i)) (take (Suc (Suc i)) P) = P"
      using Suc.IH[OF lt] Suc.prems(2) by simp
    ultimately show ?thesis
      using nexts nxt n by (simp add: Let_def)
  qed
qed

lemma trace_simple_cycle:
  assumes "distinct P" and "P \<noteq> []"
    and "enumerates es (set (zip P (rotate1 P)))"
    and "\<forall>p\<in>set P. p \<noteq> hd P \<longrightarrow> yx_less (hd P) p"
  shows "trace_boundary es = P"
proof -
  have dz: "distinct (zip P (rotate1 P))"
    using assms(1) by (simp add: distinct_zipI1)
  have len: "length es = length P"
  proof -
    have des: "distinct es"
      using assms(3) by (simp add: enumerates_def)
    have "length es = card (set es)"
      using des by (simp add: distinct_card)
    also have "\<dots> = card (set (zip P (rotate1 P)))"
      using assms(3) by (simp add: enumerates_def)
    also have "\<dots> = length (zip P (rotate1 P))"
      using dz by (simp add: distinct_card)
    finally show ?thesis by simp
  qed
  with assms(2) have ne: "es \<noteq> []" by auto
  from build_adj_nonempty[OF ne]
  obtain k ks where keys: "map fst (build_adj es) = k # ks"
    by (cases "map fst (build_adj es)") auto
  have keyset: "set (k # ks) = set P"
  proof -
    have "set (k # ks) = fst ` set (zip P (rotate1 P))"
      using build_adj_keys[of es] keys assms(3) by (simp add: enumerates_def)
    also have "\<dots> = set (map fst (zip P (rotate1 P)))"
      by (simp only: set_map)
    also have "map fst (zip P (rotate1 P)) = P"
      by (rule map_fst_zip) simp
    finally show ?thesis .
  qed
  have start: "min_yx k ks = hd P"
  proof (rule ccontr)
    assume neq: "min_yx k ks \<noteq> hd P"
    have "min_yx k ks \<in> set (k # ks)"
      by (rule min_yx_mem)
    then have "min_yx k ks \<in> set P"
      by (simp only: keyset)
    with neq assms(4) have "yx_less (hd P) (min_yx k ks)" by blast
    moreover have "hd P \<in> set (k # ks)"
      using keyset assms(2) by simp
    ultimately show False
      using min_yx_least by blast
  qed
  have hd: "hd P = P ! 0"
    using assms(2) by (simp add: hd_conv_nth)
  have succ: "\<forall>i<length P. adj_get (build_adj es) (P ! i) = [P ! (Suc i mod length P)]"
    using cycle_successor[OF assms(1,3)] by blast
  have pos: "0 < length P" using assms(2) by simp
  have "walk (build_adj es) (P ! 0) (length es * 3) (P ! 0) None (take (Suc 0) P) = P"
    by (rule walk_cycle[OF assms(1) succ pos]) (simp add: len)
  moreover have "take (Suc 0) P = [P ! 0]"
    using assms(2) by (cases P) simp_all
  ultimately show ?thesis
    using ne keys start hd by (simp add: trace_boundary_def Let_def)
qed

lemma upt4: "[0..<4] = [0, 1, 2, 3]"
  by (simp add: upt_rec)

lemma block3_cells:
  "block3 cx cy = {(cx, cy), (cx + 1, cy), (cx + 2, cy),
                   (cx, cy + 1), (cx + 1, cy + 1), (cx + 2, cy + 1),
                   (cx, cy + 2), (cx + 1, cy + 2), (cx + 2, cy + 2)}"
  by (auto simp: block3_def)

lemma block3_boundary:
  assumes "0 < g"
  shows "boundary_edges g (block3 cx cy) =
           set (zip (block3_perimeter g cx cy) (rotate1 (block3_perimeter g cx cy)))"
proof -
  let ?cs = "[(cx, cy), (cx + 1, cy), (cx + 2, cy),
              (cx, cy + 1), (cx + 1, cy + 1), (cx + 2, cy + 1),
              (cx, cy + 2), (cx + 1, cy + 2), (cx + 2, cy + 2)]"
  let ?x = "cx * g" and ?y = "cy * g"
  have cells: "block3 cx cy = set ?cs"
    by (simp add: block3_cells)
  have "boundary_edges g (set ?cs) = set (concat (map (cell_edges g (set ?cs)) ?cs))"
    unfolding boundary_edges_def by (simp only: set_concat set_map image_image)
  also have "concat (map (cell_edges g (set ?cs)) ?cs) =
      [((?x, ?y), (?x + g, ?y)), ((?x, ?y + g), (?x, ?y)),
       ((?x + g, ?y), (?x + 2 * g, ?y)),
       ((?x + 2 * g, ?y), (?x + 3 * g, ?y)), ((?x + 3 * g, ?y), (?x + 3 * g, ?y + g)),
       ((?x, ?y + 2 * g), (?x, ?y + g)),
       ((?x + 3 * g, ?y + g), (?x + 3 * g, ?y + 2 * g)),
       ((?x + g, ?y + 3 * g), (?x, ?y + 3 * g)), ((?x, ?y + 3 * g), (?x, ?y + 2 * g)),
       ((?x + 2 * g, ?y + 3 * g), (?x + g, ?y + 3 * g)),
       ((?x + 3 * g, ?y + 2 * g), (?x + 3 * g, ?y + 3 * g)),
       ((?x + 3 * g, ?y + 3 * g), (?x + 2 * g, ?y + 3 * g))]"
    by (simp add: cell_edges_def Let_def upt4 algebra_simps)
  also have "set \<dots> = set (zip (block3_perimeter g cx cy) (rotate1 (block3_perimeter g cx cy)))"
    by (simp add: block3_perimeter_def Let_def insert_commute)
  finally show ?thesis
    by (simp only: cells)
qed

lemma block3_perimeter_distinct: "0 < g \<Longrightarrow> distinct (block3_perimeter g cx cy)"
  by (simp add: block3_perimeter_def Let_def)

lemma block3_perimeter_start:
  assumes "0 < g"
  shows "\<forall>p\<in>set (block3_perimeter g cx cy).
           p \<noteq> hd (block3_perimeter g cx cy) \<longrightarrow> yx_less (hd (block3_perimeter g cx cy)) p"
  using assms by (simp add: block3_perimeter_def Let_def yx_less_def)

lemma block3_trace:
  assumes "0 < g" and "enumerates es (boundary_edges g (block3 cx cy))"
  shows "trace_boundary es = block3_perimeter g cx cy"
proof (rule trace_simple_cycle)
  show "distinct (block3_perimeter g cx cy)"
    by (rule block3_perimeter_distinct[OF assms(1)])
  show "block3_perimeter g cx cy \<noteq> []"
    by (simp add: block3_perimeter_def Let_def)
  show "enumerates es (set (zip (block3_perimeter g cx cy) (rotate1 (block3_perimeter g cx cy))))"
    using assms(2) block3_boundary[OF assms(1)] by simp
  show "\<forall>p\<in>set (block3_perimeter g cx cy).
           p \<noteq> hd (block3_perimeter g cx cy) \<longrightarrow> yx_less (hd (block3_perimeter g cx cy)) p"
    by (rule block3_perimeter_start[OF assms(1)])
qed

lemma block3_state_cells: "set (loop_path block3_state) = block3 5 5"
  by (simp add: block3_state_def game_anteater_def block3_cells insert_commute)

lemma block3_edge_order_enumerates:
  "enumerates block3_edge_order (boundary_edges 20 (block3 5 5))"
proof -
  have "(0::int) < 20" by simp
  from block3_boundary[OF this, of 5 5] show ?thesis
    by (simp add: enumerates_def block3_edge_order_def block3_perimeter_def Let_def insert_commute)
qed

text \<open>
  Claim C2, as amended. For a loop path that covers exactly a 3 by 3 block of cells,
  with a positive cell size and whatever order the edge set is visited in, the method
  returns the twelve corners of the unit edges on the block's outline, clockwise from
  the upper left corner: collinear corners are not merged, so the polygon has 12
  points.
\<close>

theorem block3_trace_has_12_points:
  assumes "0 < grid_size s"
    and "loop_cells s \<noteq> {}"
    and "set (loop_path s) = block3 cx cy"
    and "min_loop_area s \<le> int (length (loop_path s))"
    and "enumerates es (boundary_edges (grid_size s) (set (loop_path s)))"
  shows "get_loop_polygon_pixels fo cs es s = block3_perimeter (grid_size s) cx cy \<and>
         length (get_loop_polygon_pixels fo cs es s) = 12"
proof -
  have "loop_path s \<noteq> []"
    using assms(3) by (auto simp: block3_cells)
  then have "get_loop_polygon_pixels fo cs es s = trace_boundary es"
    using assms(2,4) by (simp add: get_loop_polygon_pixels_def)
  moreover have "trace_boundary es = block3_perimeter (grid_size s) cx cy"
    using assms(1,3,5) by (simp add: block3_trace)
  moreover have "length (block3_perimeter (grid_size s) cx cy) = 12"
    by (simp add: block3_perimeter_def Let_def)
  ultimately show ?thesis by simp
qed

theorem block3_trace_has_12_points_witness:
  "set (loop_path block3_state) = block3 5 5 \<and>
   get_loop_polygon_pixels exact_ops (loop_path block3_state) block3_edge_order block3_state
     = block3_perimeter 20 5 5"
proof -
  have h: "0 < grid_size block3_state" "loop_cells block3_state \<noteq> {}"
    "min_loop_area block3_state \<le> int (length (loop_path block3_state))"
    by (simp_all add: block3_state_def game_anteater_def)
  have g: "grid_size block3_state = 20"
    by (simp add: block3_state_def game_anteater_def)
  have e: "enumerates block3_edge_order
             (boundary_edges (grid_size block3_state) (set (loop_path block3_state)))"
    using block3_edge_order_enumerates by (simp only: g block3_state_cells)
  from block3_trace_has_12_points[OF h(1,2) block3_state_cells h(3) e, of exact_ops "loop_path block3_state"]
  show ?thesis
    by (simp only: g block3_state_cells)
qed

text \<open>
  Claim C2 as stated fails: for the block of cells 5..7 by 5..7 at cell size 20 the
  polygon has the 12 points listed, not 8.
\<close>

theorem block3_trace_not_8_points:
  "get_loop_polygon_pixels exact_ops (loop_path block3_state) block3_edge_order block3_state
     = [(100, 100), (120, 100), (140, 100), (160, 100), (160, 120), (160, 140),
        (160, 160), (140, 160), (120, 160), (100, 160), (100, 140), (100, 120)] \<and>
   length (get_loop_polygon_pixels exact_ops (loop_path block3_state) block3_edge_order block3_state)
     \<noteq> 8"
proof -
  have "(0::int) < 20" by simp
  from block3_trace[OF this block3_edge_order_enumerates]
  have "trace_boundary block3_edge_order = block3_perimeter 20 5 5" .
  then show ?thesis
    by (simp add: get_loop_polygon_pixels_def block3_state_def game_anteater_def
        block3_perimeter_def Let_def)
qed

theorem primary_trace_nonempty_witness:
  "block3_edge_order \<noteq> [] \<and>
   get_loop_polygon_pixels exact_ops (loop_path block3_state) block3_edge_order block3_state \<noteq> []"
proof -
  have h: "loop_cells block3_state \<noteq> {}" "loop_path block3_state \<noteq> []"
    "min_loop_area block3_state \<le> int (length (loop_path block3_state))"
    by (simp_all add: block3_state_def game_anteater_def)
  have g: "grid_size block3_state = 20"
    by (simp add: block3_state_def game_anteater_def)
  have e: "enumerates block3_edge_order
             (boundary_edges (grid_size block3_state) (set (loop_path block3_state)))"
    using block3_edge_order_enumerates by (simp only: g block3_state_cells)
  from primary_trace_nonempty[OF h e, of exact_ops "loop_path block3_state"]
  show ?thesis by blast
qed











section \<open>Scenario A\<close>

lemma scenario_A_run: "run game_anteater scenario_A = Inr scenario_A_final"
  by code_simp

lemma scenario_A_run_before: "run game_anteater (butlast scenario_A) = Inr scenario_A_closing"
  by code_simp

lemma scenario_A_cells: "set scenario_A_path = outline_6x11"
  by code_simp

lemma scenario_A_card: "card (set scenario_A_path) = 30"
  by code_simp

lemma scenario_A_index: "index_of (20, 5) scenario_A_path = Some 29"
  by code_simp

text \<open>
  Claim C3, as amended. From the start cell (20, 5) on the 40 by 30 grid of cell size
  20, after ten moves down, five left, ten up and four right the tongue has 30 cells
  and no loop; the fifth move right would put the head on (20, 5), the start cell, at
  index 29 of the tongue. That frame forms the loop: the tongue is unchanged,
  \<open>loop_path\<close> is the tongue up to and including index 29 (all of it), and
  \<open>loop_cells\<close> is the set of those 30 cells, the outline of the block of columns
  15..20 and rows 5..15. The cells enclosed by the path are not part of \<open>loop_cells\<close>.
\<close>

theorem scenario_A_loop_is_outline:
  "Anteater_init 20 = Inr game_anteater \<and>
   run game_anteater (butlast scenario_A) = Inr scenario_A_closing \<and>
   \<not> loop_active scenario_A_closing \<and>
   new_head_of scenario_A_closing = Inr (20, 5) \<and>
   index_of (20, 5) (tongue scenario_A_closing) = Some 29 \<and>
   run game_anteater scenario_A = Inr scenario_A_final \<and>
   loop_active scenario_A_final \<and>
   tongue scenario_A_final = tongue scenario_A_closing \<and>
   loop_path scenario_A_final = take (29 + 1) (tongue scenario_A_closing) \<and>
   loop_cells scenario_A_final = outline_6x11 \<and>
   card (loop_cells scenario_A_final) = 30"
proof -
  have "Anteater_init 20 = Inr game_anteater"
    by (simp add: Anteater_init_def game_anteater_def rect_centerx_def rect_bottom_def WIDTH_def)
  moreover have "new_head_of scenario_A_closing = Inr (20, 5)"
    by (simp add: new_head_of_def scenario_A_closing_def scenario_A_path_def game_anteater_def)
  moreover have "loop_path scenario_A_final = take (29 + 1) (tongue scenario_A_closing)"
    by (simp add: scenario_A_final_def scenario_A_closing_def scenario_A_path_def game_anteater_def)
  moreover have "\<not> loop_active scenario_A_closing" "loop_active scenario_A_final"
    "tongue scenario_A_final = tongue scenario_A_closing"
    "tongue scenario_A_closing = scenario_A_path"
    "loop_cells scenario_A_final = set scenario_A_path"
    by (simp_all add: scenario_A_final_def scenario_A_closing_def game_anteater_def)
  ultimately show ?thesis
    using scenario_A_run scenario_A_run_before scenario_A_cells scenario_A_card scenario_A_index
    by simp
qed

text \<open>
  Claim C3 as stated fails: at the end of scenario A \<open>loop_cells\<close> has 30 cells, not 50.
\<close>

theorem scenario_A_loop_not_50_cells:
  "run game_anteater scenario_A = Inr scenario_A_final \<and>
   card (loop_cells scenario_A_final) = 30 \<and>
   card (loop_cells scenario_A_final) \<noteq> 50"
proof -
  have "loop_cells scenario_A_final = set scenario_A_path"
    by (simp add: scenario_A_final_def)
  then show ?thesis
    using scenario_A_run scenario_A_card by simp
qed

section \<open>No reversal of the direction in force\<close>

lemma opposite_self: "opposite d = d \<longleftrightarrow> d = (0, 0)"
  by (cases d) (auto simp: opposite_def)

lemma self_opposite: "d = opposite d \<longleftrightarrow> d = (0, 0)"
  by (cases d) (auto simp: opposite_def)

lemma opposite_opposite: "opposite (opposite d) = d"
  by (cases d) (simp add: opposite_def)

lemma handle_input_direction: "direction (handle_input s k) = direction s"
  by (simp add: handle_input_def)

lemma handle_input_fields:
  "grid_size (handle_input s k) = grid_size s"
  "tongue (handle_input s k) = tongue s"
  by (simp_all add: handle_input_def)

lemma handle_input_reversal_ignored:
  "requested_direction k = Some (opposite (direction s)) \<Longrightarrow> handle_input s k = s"
  by (cases "direction s")
    (auto simp: requested_direction_def handle_input_def opposite_def split: if_splits)

lemma handle_input_ok: "state_ok s \<Longrightarrow> state_ok (handle_input s k)"
  by (cases "direction s") (auto simp: state_ok_def handle_input_def opposite_def)

lemma advance_head_ok:
  assumes "grid_size s1 \<noteq> 0" and "tongue s1 \<noteq> []"
  shows "\<exists>f. advance_head s1 = Inr f \<and>
           direction (flow_state f) = next_direction s1 \<and>
           next_direction (flow_state f) = next_direction s1 \<and>
           grid_size (flow_state f) = grid_size s1 \<and>
           tongue (flow_state f) \<noteq> []"
proof -
  obtain hx hy rest where t: "tongue s1 = (hx, hy) # rest"
    using assms(2) by (cases "tongue s1") auto
  obtain dx dy where d: "next_direction s1 = (dx, dy)"
    by (cases "next_direction s1")
  have nh: "new_head_of (s1\<lparr>move_timer := 0, direction := next_direction s1\<rparr>) = Inr (hx + dx, hy + dy)"
    using t d by (simp add: new_head_of_def)
  show ?thesis
    using assms(1) t nh
    by (simp add: advance_head_def Let_def split: option.splits)
qed

lemma extend_block_ok:
  assumes "state_ok s"
  shows "\<exists>f. extend_block s = Inr f \<and> state_ok (flow_state f) \<and>
           (advances s \<longrightarrow> direction (flow_state f) = next_direction s)"
proof (cases "advances s")
  case True
  let ?s1 = "s\<lparr>move_timer := move_timer s + 1\<rparr>"
  have eb: "extend_block s = advance_head ?s1"
    using True by (simp add: extend_block_def advances_def)
  have "grid_size ?s1 \<noteq> 0" "tongue ?s1 \<noteq> []"
    using assms by (simp_all add: state_ok_def)
  from advance_head_ok[OF this]
  obtain f where f: "advance_head ?s1 = Inr f"
    "direction (flow_state f) = next_direction ?s1"
    "next_direction (flow_state f) = next_direction ?s1"
    "grid_size (flow_state f) = grid_size ?s1"
    "tongue (flow_state f) \<noteq> []"
    by blast
  have "state_ok (flow_state f)"
    using assms f(2-5) by (simp add: state_ok_def self_opposite)
  with eb f(1,2) show ?thesis by simp
next
  case False
  then have "extend_block s = Inr (Fallthrough s) \<or>
             extend_block s = Inr (Fallthrough (s\<lparr>move_timer := move_timer s + 1\<rparr>))"
    by (auto simp: extend_block_def advances_def)
  moreover have "state_ok (s\<lparr>move_timer := move_timer s + 1\<rparr>)"
    using assms by (simp add: state_ok_def)
  ultimately show ?thesis
    using assms False by auto
qed

lemma retract_block_ok:
  assumes "state_ok s"
  shows "\<exists>s'. retract_block s = Inr s' \<and> state_ok s'"
proof -
  obtain c rest where t: "tongue s = c # rest"
    using assms by (cases "tongue s") (auto simp: state_ok_def)
  show ?thesis
    using assms t
    by (cases rest) (simp_all add: retract_block_def Let_def state_ok_def opposite_def)
qed

lemma update_ok:
  assumes "state_ok s"
  shows "\<exists>s'. update s = Inr s' \<and> state_ok s'"
proof -
  from extend_block_ok[OF assms]
  obtain f where f: "extend_block s = Inr f" "state_ok (flow_state f)"
    by blast
  show ?thesis
  proof (cases f)
    case (Returned s')
    with f show ?thesis by (simp add: update_def)
  next
    case (Fallthrough s')
    with f retract_block_ok[of s'] show ?thesis by (simp add: update_def)
  qed
qed

lemma step_ok:
  assumes "state_ok s"
  shows "\<exists>s'. step s e = Inr s' \<and> state_ok s'"
proof (cases e)
  case (Frame k)
  then show ?thesis
    using update_ok[OF handle_input_ok[OF assms, of k]] by simp
next
  case Key_r
  then show ?thesis
    using assms by (simp add: reset_tongue_def state_ok_def opposite_def)
qed (use assms in \<open>simp_all add: state_ok_def\<close>)

lemma run_ok:
  assumes "state_ok s"
  shows "\<exists>s'. run s evs = Inr s' \<and> state_ok s'"
  using assms
proof (induction evs arbitrary: s)
  case Nil
  then show ?case by simp
next
  case (Cons e evs)
  from step_ok[OF Cons.prems, of e]
  obtain s1 where s1: "step s e = Inr s1" "state_ok s1" by blast
  from Cons.IH[OF s1(2)] s1(1) show ?case by simp
qed

lemma Anteater_init_ok: "Anteater_init g = Inr s0 \<Longrightarrow> state_ok s0"
  by (auto simp: Anteater_init_def state_ok_def opposite_def split: if_splits)

text \<open>
  Claim C5, as amended. After every sequence of events from the constructor (which
  never raises), for every key state of the next frame: \<open>handle_input\<close> leaves the
  direction in force as it is; if the key asks for the exact opposite of the direction
  in force, \<open>handle_input\<close> changes nothing at all, the buffered direction included;
  and if the extending block fires in that frame, the direction it applies is the
  buffered one and is not the opposite of the direction in force before the frame. The
  direction in force is the one applied by the previous move, or (0, 1) when a full
  retraction or a reset has happened since.
\<close>

theorem applied_direction_not_opposite_of_current:
  assumes "Anteater_init g = Inr s0"
  shows "\<exists>s. run s0 evs = Inr s \<and>
           direction (handle_input s k) = direction s \<and>
           (requested_direction k = Some (opposite (direction s)) \<longrightarrow> handle_input s k = s) \<and>
           (advances (handle_input s k) \<longrightarrow>
              (\<exists>f. extend_block (handle_input s k) = Inr f \<and>
                   direction (flow_state f) = next_direction (handle_input s k) \<and>
                   direction (flow_state f) \<noteq> opposite (direction s)))"
proof -
  from run_ok[OF Anteater_init_ok[OF assms], of evs]
  obtain s where s: "run s0 evs = Inr s" "state_ok s" by blast
  let ?h = "handle_input s k"
  have hok: "state_ok ?h"
    by (rule handle_input_ok[OF s(2)])
  from extend_block_ok[OF hok]
  obtain f where f: "extend_block ?h = Inr f"
    "advances ?h \<longrightarrow> direction (flow_state f) = next_direction ?h"
    by blast
  have "next_direction ?h \<noteq> opposite (direction s)"
    using hok by (simp add: state_ok_def handle_input_direction)
  with f have adv: "advances ?h \<longrightarrow>
      (\<exists>f. extend_block ?h = Inr f \<and> direction (flow_state f) = next_direction ?h \<and>
           direction (flow_state f) \<noteq> opposite (direction s))"
    by auto
  from s(1) handle_input_direction[of s k] handle_input_reversal_ignored[of k s] adv
  show ?thesis by blast
qed

lemma about_to_move_run:
  "run game_anteater (Space_down # replicate 4 (Frame no_keys)) = Inr about_to_move"
  by code_simp

theorem applied_direction_not_opposite_of_current_witness:
  "Anteater_init 20 = Inr game_anteater \<and>
   run game_anteater (Space_down # replicate 4 (Frame no_keys)) = Inr about_to_move \<and>
   requested_direction up_key = Some (opposite (direction about_to_move)) \<and>
   handle_input about_to_move up_key = about_to_move \<and>
   advances (handle_input about_to_move up_key) \<and>
   (\<exists>f. extend_block (handle_input about_to_move up_key) = Inr f \<and>
        direction (flow_state f) = (0, 1) \<and>
        direction (flow_state f) \<noteq> opposite (direction about_to_move))"
proof -
  have init: "Anteater_init 20 = Inr game_anteater"
    by (simp add: Anteater_init_def game_anteater_def rect_centerx_def rect_bottom_def WIDTH_def)
  have req: "requested_direction up_key = Some (opposite (direction about_to_move))"
    by (simp add: requested_direction_def up_key_def opposite_def about_to_move_def game_anteater_def)
  from applied_direction_not_opposite_of_current[OF init,
      of "Space_down # replicate 4 (Frame no_keys)" up_key]
  obtain s where s: "run game_anteater (Space_down # replicate 4 (Frame no_keys)) = Inr s"
    "requested_direction up_key = Some (opposite (direction s)) \<longrightarrow> handle_input s up_key = s"
    "advances (handle_input s up_key) \<longrightarrow>
       (\<exists>f. extend_block (handle_input s up_key) = Inr f \<and>
            direction (flow_state f) = next_direction (handle_input s up_key) \<and>
            direction (flow_state f) \<noteq> opposite (direction s))"
    by blast
  have "Inr s = (Inr about_to_move :: py_error + anteater)"
    by (rule trans[OF s(1)[symmetric] about_to_move_run])
  then have eq: "s = about_to_move"
    by simp
  have *: "handle_input about_to_move up_key = about_to_move"
    "advances (handle_input about_to_move up_key) \<longrightarrow>
       (\<exists>f. extend_block (handle_input about_to_move up_key) = Inr f \<and>
            direction (flow_state f) = next_direction (handle_input about_to_move up_key) \<and>
            direction (flow_state f) \<noteq> opposite (direction about_to_move))"
    using s(2,3) req unfolding eq by blast+
  have adv: "advances about_to_move"
    by (simp add: advances_def about_to_move_def game_anteater_def)
  have nd: "next_direction about_to_move = (0, 1)"
    by (simp add: about_to_move_def game_anteater_def)
  from * adv nd init req about_to_move_run show ?thesis
    by simp
qed

lemma reversal_events_applied:
  "applied_dirs game_anteater reversal_events = [(0, 1), (- 1, 0), (0, - 1), (0, 1)]"
  by code_simp

text \<open>
  Claim C5 as stated fails: the tongue goes down, left and up, is pulled back to its
  anchor cell, where the retracting block sets the direction to (0, 1), and is launched
  again. The directions applied by successive moves are then (0, -1) followed by
  (0, 1), its exact opposite.
\<close>

theorem applied_directions_can_reverse:
  "applied_dirs game_anteater reversal_events = [(0, 1), (- 1, 0), (0, - 1), (0, 1)] \<and>
   (0, 1) = opposite (0, - 1) \<and>
   \<not> no_reversal (applied_dirs game_anteater reversal_events)"
  by (simp add: reversal_events_applied opposite_def)

section \<open>Point in polygon under reversal\<close>















end
